theory Spec2Isabelle
  imports Complex_Main "HOL-Library.FSet" "HOL-Library.AList" "HOL-Library.Sublist"
begin

section \<open>Library functions the scraper calls\<close>

text \<open>
  \<^verbatim>\<open>Duke.py\<close> calls \<^verbatim>\<open>urllib.parse.urljoin\<close>, \<^verbatim>\<open>urlparse(u).netloc\<close>,
  \<^verbatim>\<open>urlparse(u).path\<close>, \<^verbatim>\<open>os.path.basename\<close>, \<^verbatim>\<open>os.path.splitext(u)[1]\<close> and the
  decimal rendering of an integer inside an f-string. They belong to the Python standard
  library, not to the program, so every definition below takes them as the fields of a record
  and every theorem holds for whatever these functions compute. They are taken to return
  normally on every input.
\<close>

record pylib =
  urljoin :: "string \<Rightarrow> string \<Rightarrow> string"
  netloc :: "string \<Rightarrow> string"
  url_path :: "string \<Rightarrow> string"
  basename :: "string \<Rightarrow> string"
  splitext_ext :: "string \<Rightarrow> string"
  str_of_int :: "int \<Rightarrow> string"

subsection \<open>Strings\<close>

text \<open>\<^verbatim>\<open>str.lower()\<close> on the ASCII letters; every other character is left as it is.\<close>

definition lower_char :: "char \<Rightarrow> char" where
  "lower_char c =
     (let n = (of_char c :: nat) in if 65 \<le> n \<and> n \<le> 90 then char_of (n + 32) else c)"

definition lower :: "string \<Rightarrow> string" where
  "lower s = map lower_char s"

text \<open>\<^verbatim>\<open>s.endswith(ext)\<close>.\<close>

definition endswith :: "string \<Rightarrow> string \<Rightarrow> bool" where
  "endswith s ext \<longleftrightarrow> length ext \<le> length s \<and> drop (length s - length ext) s = ext"

subsection \<open>A Python set of strings\<close>

text \<open>
  The extractors build a \<^verbatim>\<open>set()\<close> with \<^verbatim>\<open>links.add(...)\<close> and the callers iterate over
  it. The model keeps the elements in a list without repetition, in the order of their
  first insertion, and iterates in that order; Python leaves the iteration order open.
\<close>

definition set_add :: "string list \<Rightarrow> string \<Rightarrow> string list" where
  "set_add links x = (if x \<in> set links then links else links @ [x])"

section \<open>The parsed page\<close>

text \<open>
  A \<^verbatim>\<open>BeautifulSoup\<close> document is used only through \<^verbatim>\<open>find_all\<close> and \<^verbatim>\<open>tag.get\<close>, so it
  is the list of its tags in document order, each with its name and its attributes.
\<close>

record tag =
  tag_name :: string
  tag_attrs :: "string \<rightharpoonup> string"

type_synonym soup = "tag list"

definition find_all :: "soup \<Rightarrow> string list \<Rightarrow> tag list" where
  "find_all soup names = filter (\<lambda>t. tag_name t \<in> set names) soup"

text \<open>\<^verbatim>\<open>soup.find_all('a', href=True)\<close>: the \<^verbatim>\<open>a\<close> tags that carry an \<^verbatim>\<open>href\<close> attribute.\<close>

definition find_all_a_href :: "soup \<Rightarrow> tag list" where
  "find_all_a_href soup =
     filter (\<lambda>t. tag_name t = ''a'' \<and> tag_attrs t ''href'' \<noteq> None) soup"

definition tag_get :: "tag \<Rightarrow> string \<Rightarrow> string option" where
  "tag_get t a = tag_attrs t a"

section \<open>Media and link extraction\<close>

definition MEDIA_EXTENSIONS :: "string \<rightharpoonup> string list" where
  "MEDIA_EXTENSIONS = map_of
     [(''images'', [''.jpg'', ''.jpeg'', ''.png'', ''.gif'', ''.webp'', ''.svg'']),
      (''videos'', [''.mp4'', ''.webm'']),
      (''audio'', [''.mp3'', ''.ogg'', ''.wav'']),
      (''documents'', [''.pdf'', ''.epub'', ''.docx'', ''.txt''])]"

definition is_media_file :: "string \<Rightarrow> string list \<Rightarrow> bool" where
  "is_media_file url extensions = list_ex (\<lambda>ext. endswith (lower url) ext) extensions"

text \<open>The body of the two \<^verbatim>\<open>for\<close> loops that add a non-empty attribute value.\<close>

definition add_attr :: "pylib \<Rightarrow> string \<Rightarrow> tag \<Rightarrow> string \<Rightarrow> string list \<Rightarrow> string list" where
  "add_attr lib base_url t attr links =
     (case tag_get t attr of
        None \<Rightarrow> links
      | Some src \<Rightarrow> if src \<noteq> [] then set_add links (urljoin lib base_url src) else links)"

definition add_document :: "pylib \<Rightarrow> string \<Rightarrow> tag \<Rightarrow> string list \<Rightarrow> string list" where
  "add_document lib base_url t links =
     (case tag_get t ''href'' of
        None \<Rightarrow> links
      | Some href \<Rightarrow>
          (case MEDIA_EXTENSIONS ''documents'' of
             None \<Rightarrow> links
           | Some exts \<Rightarrow>
               if is_media_file href exts then set_add links (urljoin lib base_url href)
               else links))"

definition extract_media_links :: "pylib \<Rightarrow> soup \<Rightarrow> string \<Rightarrow> string \<Rightarrow> string list" where
  "extract_media_links lib soup base_url mtype =
     (if mtype = ''images'' then
        fold (\<lambda>t links. fold (add_attr lib base_url t) [''src'', ''data-src'', ''content''] links)
          (find_all soup [''img'', ''source'', ''meta'']) []
      else if mtype \<in> set [''videos'', ''audio''] then
        fold (\<lambda>t links. add_attr lib base_url t ''src'' links)
          (find_all soup [''video'', ''audio'', ''source'']) []
      else if mtype = ''documents'' then
        fold (add_document lib base_url) (find_all_a_href soup) []
      else [])"

definition add_link :: "pylib \<Rightarrow> string \<Rightarrow> bool \<Rightarrow> tag \<Rightarrow> string list \<Rightarrow> string list" where
  "add_link lib base_url same_domain t links =
     (case tag_get t ''href'' of
        None \<Rightarrow> links
      | Some href \<Rightarrow>
          (let full_url = urljoin lib base_url href in
           if same_domain \<and> netloc lib full_url \<noteq> netloc lib base_url then links
           else set_add links full_url))"

definition extract_links :: "pylib \<Rightarrow> soup \<Rightarrow> string \<Rightarrow> bool \<Rightarrow> string list" where
  "extract_links lib soup base_url same_domain =
     fold (add_link lib base_url same_domain) (find_all_a_href soup) []"


section \<open>The traversal\<close>

text \<open>A queue item is the tuple \<^verbatim>\<open>(link, mtype, url)\<close> put on \<^verbatim>\<open>download_queue\<close>.\<close>

type_synonym item = "string \<times> string \<times> string"

text \<open>The values \<^verbatim>\<open>main\<close> reads from the prompt and passes on.\<close>

record config =
  media_types :: "string list"
  min_size_kb :: int
  max_depth :: int
  max_pages :: int
  same_domain :: bool
  max_per_type :: "string \<rightharpoonup> int"

text \<open>
  The network, the random number generator and the file system's willingness to be written
  are outside the program. \<open>get_page n url\<close> is what \<^verbatim>\<open>get_page_content\<close> followed by
  the parser gives at the \<open>n\<close>-th page request of the run (\<open>None\<close>: an exception was raised),
  \<open>get_media n url\<close> is the streamed response to the \<open>n\<close>-th media request, \<open>randint n\<close>
  is the \<open>n\<close>-th result of \<^verbatim>\<open>random.randint(1000, 9999)\<close>, and \<open>can_write p\<close> tells whether
  \<^verbatim>\<open>os.makedirs\<close> and \<^verbatim>\<open>open(filepath, 'wb')\<close> succeed for the file \<open>p\<close>.
\<close>

datatype cl_header = NoHeader | HeaderInt int | HeaderBad

record response =
  status_ok :: bool
  content_length :: cl_header
  chunks :: "string list"
  stream_ok :: bool

record world =
  get_page :: "nat \<Rightarrow> string \<Rightarrow> soup option"
  get_media :: "nat \<Rightarrow> string \<Rightarrow> response option"
  randint :: "nat \<Rightarrow> int"
  can_write :: "string list \<Rightarrow> bool"

text \<open>
  The module-level state the traversal touches: \<^verbatim>\<open>visited_urls\<close>, \<^verbatim>\<open>download_queue\<close>, and
  the trace of the calls of \<^verbatim>\<open>get_page_content\<close> (the URL, the depth printed by
  \<^verbatim>\<open>Crawling: ... [Depth: ...]\<close>, and whether the call returned), oldest first.
\<close>

record crawl_state =
  visited_urls :: "string fset"
  download_queue :: "item list"
  fetches :: "(string \<times> int \<times> bool) list"

definition init_crawl :: crawl_state where
  "init_crawl = \<lparr> visited_urls = {||}, download_queue = [], fetches = [] \<rparr>"

definition enqueue_media ::
  "pylib \<Rightarrow> soup \<Rightarrow> string \<Rightarrow> string list \<Rightarrow> crawl_state \<Rightarrow> crawl_state" where
  "enqueue_media lib soup url mtypes s =
     fold (\<lambda>mtype s. s\<lparr>download_queue := download_queue s @
             map (\<lambda>link. (link, mtype, url)) (extract_media_links lib soup url mtype)\<rparr>)
       mtypes s"

text \<open>
  \<^verbatim>\<open>crawl\<close> and the \<^verbatim>\<open>for link in extract_links(...)\<close> loop inside it. An exception of the
  fetch is caught by the \<^verbatim>\<open>except\<close> clause, which only prints. The recursion is as deep as
  \<^verbatim>\<open>max_depth\<close> allows; the interpreter's recursion limit is not modelled.
\<close>

function crawl :: "pylib \<Rightarrow> world \<Rightarrow> config \<Rightarrow> string \<Rightarrow> int \<Rightarrow> crawl_state \<Rightarrow> crawl_state"
  and crawl_links ::
    "pylib \<Rightarrow> world \<Rightarrow> config \<Rightarrow> string list \<Rightarrow> int \<Rightarrow> crawl_state \<Rightarrow> crawl_state"
where
  "crawl lib w cfg url current_depth s =
     (if url |\<in>| visited_urls s \<or> current_depth > max_depth cfg
         \<or> int (fcard (visited_urls s)) \<ge> max_pages cfg
      then s
      else
        (case get_page w (length (fetches s)) url of
           None \<Rightarrow> s\<lparr>fetches := fetches s @ [(url, current_depth, False)]\<rparr>
         | Some soup \<Rightarrow>
             crawl_links lib w cfg (extract_links lib soup url (same_domain cfg))
               (current_depth + 1)
               (enqueue_media lib soup url (media_types cfg)
                  (s\<lparr>fetches := fetches s @ [(url, current_depth, True)],
                     visited_urls := finsert url (visited_urls s)\<rparr>))))"
| "crawl_links lib w cfg [] depth s = s"
| "crawl_links lib w cfg (link # links) depth s =
     crawl_links lib w cfg links depth (crawl lib w cfg link depth s)"
  by pat_completeness auto
termination
  by (relation "inv_image (less_than <*lex*> less_than)
        (\<lambda>x. case x of
            Inl (lib, w, cfg, url, d, s) \<Rightarrow> (nat (max_depth cfg + 1 - d), 0)
          | Inr (lib, w, cfg, links, d, s) \<Rightarrow> (nat (max_depth cfg + 1 - d), Suc (length links)))")
     auto

declare crawl.simps [simp del]

text \<open>
  A link path in the web: \<open>linkpath lib w sd seed n u\<close> when \<open>u\<close> is reached from \<open>seed\<close>
  by following \<open>n\<close> links, each extracted (with the same-domain switch \<open>sd\<close>) from a page
  that some request returns.
\<close>

inductive linkpath :: "pylib \<Rightarrow> world \<Rightarrow> bool \<Rightarrow> string \<Rightarrow> nat \<Rightarrow> string \<Rightarrow> bool"
  for lib :: pylib and w :: world and sd :: bool and seed :: string
where
  linkpath_seed: "linkpath lib w sd seed 0 seed"
| linkpath_step:
    "linkpath lib w sd seed n u \<Longrightarrow> get_page w t u = Some soup \<Longrightarrow>
     l \<in> set (extract_links lib soup u sd) \<Longrightarrow> linkpath lib w sd seed (Suc n) l"

text \<open>
  No fetch follows a successful fetch of the same URL: the reading of a trace that the
  visited set enforces.
\<close>

fun no_refetch :: "(string \<times> int \<times> bool) list \<Rightarrow> bool" where
  "no_refetch [] = True"
| "no_refetch ((u, d, ok) # es) = ((ok \<longrightarrow> u \<notin> fst ` set es) \<and> no_refetch es)"

text \<open>
  What the trace and the visited set have to do with each other: no URL is fetched after
  it was fetched with success, and the visited URLs are the ones fetched with success.
\<close>

definition log_inv :: "crawl_state \<Rightarrow> bool" where
  "log_inv s \<longleftrightarrow> no_refetch (fetches s) \<and>
     fset (visited_urls s) = {u. \<exists>k. (u, k, True) \<in> set (fetches s)}"

section \<open>The download workers\<close>

text \<open>The dictionary appended to \<^verbatim>\<open>downloaded_media\<close>.\<close>

record download_record =
  rec_url :: string
  rec_type :: string
  rec_size_kb :: int
  rec_filename :: string
  rec_source_page :: string

text \<open>
  The output directory is a list of files, each with its path relative to \<^verbatim>\<open>save_dir\<close>
  (the list of its components) and its content. The contents of the manifest files are kept
  as the values handed to \<^verbatim>\<open>json.dump\<close>, to the \<^verbatim>\<open>csv.DictWriter\<close> (the field names of
  the header row and the rows) and to \<^verbatim>\<open>zipf.write\<close> (the archived files under their
  relative paths).
\<close>

datatype content =
    Bytes string
  | Json "download_record list"
  | Csv "string list" "download_record list"
  | Zip "(string list \<times> content) list"

type_synonym filesystem = "(string list \<times> content) list"

datatype wpc = LoopHead | Getting | Holding item | Finished

text \<open>A worker thread: its local \<^verbatim>\<open>media_count\<close> and where it stands in its loop.\<close>

record worker =
  media_count :: "string \<rightharpoonup> int"
  pc :: wpc

record pool_state =
  queue :: "item list"
  downloaded_media :: "download_record list"
  files :: filesystem
  media_requests :: nat
  rand_calls :: nat
  workers :: "worker list"

text \<open>
  \<^verbatim>\<open>max_media_per_type.get(mtype, 0) and media_count.get(mtype, 0) >= max_media_per_type[mtype]\<close>
\<close>

definition quota_reached :: "config \<Rightarrow> (string \<rightharpoonup> int) \<Rightarrow> string \<Rightarrow> bool" where
  "quota_reached cfg mc mtype =
     (case max_per_type cfg mtype of
        None \<Rightarrow> False
      | Some limit \<Rightarrow> limit \<noteq> 0 \<and> (case mc mtype of None \<Rightarrow> 0 | Some c \<Rightarrow> c) \<ge> limit)"

text \<open>
  \<^verbatim>\<open>int(r.headers.get("Content-Length", 0)) / 1024\<close>: \<open>None\<close> when \<^verbatim>\<open>int\<close> raises
  \<^verbatim>\<open>ValueError\<close>. The quotient is kept as a rational number, which is the value of the
  Python float as long as the declared length is below \<open>2 ^ 53\<close>.
\<close>

definition declared_size_kb :: "response \<Rightarrow> rat option" where
  "declared_size_kb r =
     (case content_length r of
        NoHeader \<Rightarrow> Some (of_int 0 / 1024)
      | HeaderInt n \<Rightarrow> Some (of_int n / 1024)
      | HeaderBad \<Rightarrow> None)"

text \<open>\<^verbatim>\<open>int(x)\<close> of a float: truncation towards zero.\<close>

definition py_int :: "rat \<Rightarrow> int" where
  "py_int x = (if 0 \<le> x then \<lfloor>x\<rfloor> else \<lceil>x\<rceil>)"

text \<open>Lines 68 to 71: the file name, and the number of calls of the random generator.\<close>

definition derive_filename :: "pylib \<Rightarrow> world \<Rightarrow> string \<Rightarrow> nat \<Rightarrow> string \<times> nat" where
  "derive_filename lib w url k =
     (let filename = basename lib (url_path lib url) in
      if filename = [] \<or> CHR ''.'' \<notin> set filename then
        (let ext = (if splitext_ext lib url \<noteq> [] then splitext_ext lib url else ''.bin'')
         in (''file_'' @ str_of_int lib (randint w k) @ ext, Suc k))
      else (filename, k))"

text \<open>
  One iteration of the worker's loop after \<^verbatim>\<open>download_queue.get()\<close>, on the worker's own
  \<^verbatim>\<open>media_count\<close> and the shared state. Every exception inside the \<^verbatim>\<open>try\<close> block ends the
  iteration; what was done before it stays done.
\<close>

definition process_item ::
  "pylib \<Rightarrow> world \<Rightarrow> config \<Rightarrow> item \<Rightarrow> (string \<rightharpoonup> int) \<Rightarrow> pool_state
     \<Rightarrow> (string \<rightharpoonup> int) \<times> pool_state" where
  "process_item lib w cfg it mc st =
     (case it of (url, mtype, source_url) \<Rightarrow>
        if quota_reached cfg mc mtype then (mc, st)
        else
          (let st1 = st\<lparr>media_requests := Suc (media_requests st)\<rparr> in
           case get_media w (media_requests st) url of
             None \<Rightarrow> (mc, st1)
           | Some r \<Rightarrow>
               if \<not> status_ok r then (mc, st1)
               else
                 (case declared_size_kb r of
                    None \<Rightarrow> (mc, st1)
                  | Some size_kb \<Rightarrow>
                      if size_kb < of_int (min_size_kb cfg) then (mc, st1)
                      else
                        (case derive_filename lib w url (rand_calls st1) of
                           (filename, k) \<Rightarrow>
                             (let st2 = st1\<lparr>rand_calls := k\<rparr>;
                                  filepath = [mtype, filename] in
                              if \<not> can_write w filepath then (mc, st2)
                              else
                                (let st3 = st2\<lparr>files :=
                                       AList.update filepath (Bytes (concat (chunks r)))
                                         (files st2)\<rparr> in
                                 if \<not> stream_ok r then (mc, st3)
                                 else
                                   (mc(mtype \<mapsto>
                                        (case mc mtype of None \<Rightarrow> 0 | Some c \<Rightarrow> c) + 1),
                                    st3\<lparr>downloaded_media := downloaded_media st3 @
                                      [\<lparr> rec_url = url, rec_type = mtype,
                                         rec_size_kb = py_int size_kb,
                                         rec_filename = filename,
                                         rec_source_page = source_url \<rparr>]\<rparr>)))))))"

text \<open>
  The threads interleave. One step of worker \<open>i\<close> is one of: the test
  \<^verbatim>\<open>download_queue.empty()\<close>; the call \<^verbatim>\<open>download_queue.get()\<close>, which waits while the
  queue is empty; the rest of the iteration for the item in hand.
\<close>

definition worker_step :: "pylib \<Rightarrow> world \<Rightarrow> config \<Rightarrow> nat \<Rightarrow> pool_state \<Rightarrow> pool_state" where
  "worker_step lib w cfg i st =
     (if i \<ge> length (workers st) then st
      else
        (let wk = workers st ! i in
         case pc wk of
           LoopHead \<Rightarrow>
             st\<lparr>workers := (workers st)[i := wk\<lparr>pc := (if queue st = [] then Finished else Getting)\<rparr>]\<rparr>
         | Getting \<Rightarrow>
             (case queue st of
                [] \<Rightarrow> st
              | it # q \<Rightarrow> st\<lparr>queue := q, workers := (workers st)[i := wk\<lparr>pc := Holding it\<rparr>]\<rparr>)
         | Holding it \<Rightarrow>
             (case process_item lib w cfg it (media_count wk) st of
                (mc, st') \<Rightarrow>
                  st'\<lparr>workers := (workers st')[i := \<lparr> media_count = mc, pc = LoopHead \<rparr>]\<rparr>)
         | Finished \<Rightarrow> st))"

text \<open>A schedule names the worker that takes each step.\<close>

definition run_schedule ::
  "pylib \<Rightarrow> world \<Rightarrow> config \<Rightarrow> nat list \<Rightarrow> pool_state \<Rightarrow> pool_state" where
  "run_schedule lib w cfg schedule st = fold (worker_step lib w cfg) schedule st"

section \<open>The manifest and the main program\<close>

definition MAX_THREADS :: nat where
  "MAX_THREADS = 8"

definition new_worker :: worker where
  "new_worker = \<lparr> media_count = Map.empty, pc = LoopHead \<rparr>"

text \<open>
  The state when \<^verbatim>\<open>main\<close> has started its threads:
  \<^verbatim>\<open>for _ in range(min(MAX_THREADS, download_queue.qsize()))\<close>.
\<close>

definition start_pool :: "crawl_state \<Rightarrow> filesystem \<Rightarrow> pool_state" where
  "start_pool cs fs =
     \<lparr> queue = download_queue cs, downloaded_media = [], files = fs,
       media_requests = 0, rand_calls = 0,
       workers = replicate (min MAX_THREADS (length (download_queue cs))) new_worker \<rparr>"

definition file_of_path :: "string list \<Rightarrow> string" where
  "file_of_path p = (if p = [] then [] else last p)"

definition csv_fieldnames :: "string list" where
  "csv_fieldnames = [''url'', ''type'', ''size_kb'', ''filename'', ''source_page'']"

text \<open>
  \<^verbatim>\<open>save_results\<close>: the two manifest files, then the archive, which is created before the
  directory is walked.
\<close>

definition save_results :: "pool_state \<Rightarrow> pool_state" where
  "save_results st =
     (let f1 = AList.update [''results.json''] (Json (downloaded_media st)) (files st);
          f2 = AList.update [''results.csv''] (Csv csv_fieldnames (downloaded_media st)) f1;
          f3 = AList.update [''media.zip''] (Zip []) f2;
          entries = filter (\<lambda>(p, c). file_of_path p \<noteq> ''media.zip'') f3
      in st\<lparr>files := AList.update [''media.zip''] (Zip entries) f3\<rparr>)"

text \<open>
  \<^verbatim>\<open>main\<close> after the prompt: the traversal, the threads under a schedule, the \<^verbatim>\<open>join\<close>
  of every thread, the manifest. \<open>None\<close> when the schedule ends before every thread has.
\<close>

definition main ::
  "pylib \<Rightarrow> world \<Rightarrow> config \<Rightarrow> string \<Rightarrow> filesystem \<Rightarrow> nat list \<Rightarrow> pool_state option" where
  "main lib w cfg url fs schedule =
     (let cs = crawl lib w cfg url 0 init_crawl;
          st = run_schedule lib w cfg schedule (start_pool cs fs)
      in if list_all (\<lambda>wk. pc wk = Finished) (workers st) then Some (save_results st)
         else None)"

section \<open>A fragment of the URL library for concrete runs\<close>

text \<open>
  Concrete runs need concrete library functions. The ones below agree with Python on the
  URLs the runs use: absolute URLs \<^verbatim>\<open>http://host/path?query\<close> without user information,
  port, parameters or fragment, and links that are themselves such absolute URLs (which
  \<^verbatim>\<open>urljoin\<close> returns unchanged).
\<close>

definition after_scheme :: "string \<Rightarrow> string" where
  "after_scheme u = (if take 7 u = ''http://'' then drop 7 u else u)"

definition simple_netloc :: "string \<Rightarrow> string" where
  "simple_netloc u =
     (if take 7 u = ''http://'' then takeWhile (\<lambda>c. c \<notin> set ''/?#'') (drop 7 u) else [])"

definition simple_path :: "string \<Rightarrow> string" where
  "simple_path u =
     takeWhile (\<lambda>c. c \<notin> set ''?#'') (dropWhile (\<lambda>c. c \<notin> set ''/?#'') (after_scheme u))"

definition simple_urljoin :: "string \<Rightarrow> string \<Rightarrow> string" where
  "simple_urljoin base url = (if take 7 url = ''http://'' then url else base)"

definition simple_basename :: "string \<Rightarrow> string" where
  "simple_basename p = rev (takeWhile (\<lambda>c. c \<noteq> CHR ''/'') (rev p))"

definition simple_lib :: pylib where
  "simple_lib = \<lparr> urljoin = simple_urljoin, netloc = simple_netloc, url_path = simple_path,
       basename = simple_basename, splitext_ext = (\<lambda>u. []), str_of_int = (\<lambda>n. ''1000'') \<rparr>"

section \<open>Concrete pages and runs\<close>

text \<open>
  A small web on the host \<^verbatim>\<open>h\<close>: page \<^verbatim>\<open>a\<close> links to \<^verbatim>\<open>b\<close>, to \<^verbatim>\<open>c\<close> and to a page
  on another host and shows two images, page \<^verbatim>\<open>c\<close> links to \<^verbatim>\<open>b\<close>, and every request
  for \<^verbatim>\<open>b\<close> fails. The second web lists the links of \<^verbatim>\<open>a\<close> in the other order.
\<close>

definition a_tag :: "string \<Rightarrow> tag" where
  "a_tag href = \<lparr> tag_name = ''a'', tag_attrs = [''href'' \<mapsto> href] \<rparr>"

definition img_tag :: "string \<Rightarrow> tag" where
  "img_tag src = \<lparr> tag_name = ''img'', tag_attrs = [''src'' \<mapsto> src] \<rparr>"

definition ok_response :: response where
  "ok_response = \<lparr> status_ok = True, content_length = HeaderInt 2048, chunks = [''xy''], stream_ok = True \<rparr>"

definition web_pages :: "nat \<Rightarrow> string \<Rightarrow> soup option" where
  "web_pages n u =
     (if u = ''http://h/a'' then
        Some [a_tag ''http://h/b'', a_tag ''http://h/c'', a_tag ''http://x/z'',
              img_tag ''http://h/1.png'', img_tag ''http://h/2.png'']
      else if u = ''http://h/c'' then Some [a_tag ''http://h/b'']
      else None)"

definition web_pages_swapped :: "nat \<Rightarrow> string \<Rightarrow> soup option" where
  "web_pages_swapped n u =
     (if u = ''http://h/a'' then
        Some [a_tag ''http://h/c'', a_tag ''http://h/b'']
      else if u = ''http://h/c'' then Some [a_tag ''http://h/b'']
      else None)"

definition web :: world where
  "web = \<lparr> get_page = web_pages, get_media = (\<lambda>n u. Some ok_response),
           randint = (\<lambda>n. 1000), can_write = (\<lambda>p. True) \<rparr>"

definition web_swapped :: world where
  "web_swapped = web\<lparr> get_page := web_pages_swapped \<rparr>"

definition cfg_images :: config where
  "cfg_images = \<lparr> media_types = [''images''], min_size_kb = 0, max_depth = 2, max_pages = 100,
      same_domain = True, max_per_type = [''images'' \<mapsto> 1] \<rparr>"

definition cfg_one_page :: config where
  "cfg_one_page = cfg_images\<lparr>max_pages := 1\<rparr>"








text \<open>
  Two threads, each taking an item from the queue before the other has finished its own:
  thread 0 tests and gets, thread 1 tests and gets, both download, both find the queue
  empty.
\<close>

definition two_workers :: "nat list" where
  "two_workers = [0, 0, 1, 1, 0, 1, 0, 1]"

text \<open>A web whose seed page shows no media, and an output directory left by earlier runs.\<close>

definition web_no_media :: world where
  "web_no_media = web\<lparr> get_page := (\<lambda>n u. if u = ''http://h/a'' then Some [a_tag ''http://h/b''] else None) \<rparr>"

definition old_tree :: filesystem where
  "old_tree = [([''images'', ''old.png''], Bytes ''x''), ([''media.zip''], Zip []),
               ([''images'', ''media.zip''], Bytes ''y'')]"

section \<open>Properties of the extractors\<close>

lemma set_set_add: "set (set_add xs x) = insert x (set xs)"
  by (auto simp: set_add_def)











section \<open>Properties of the traversal\<close>

lemma enqueue_media_visited [simp]:
  "visited_urls (enqueue_media lib soup url ms s) = visited_urls s"
  by (induction ms arbitrary: s) (simp_all add: enqueue_media_def)

lemma enqueue_media_fetches [simp]:
  "fetches (enqueue_media lib soup url ms s) = fetches s"
  by (induction ms arbitrary: s) (simp_all add: enqueue_media_def)

lemma crawl_visited_mono:
  "visited_urls s |\<subseteq>| visited_urls (crawl lib w cfg url d s)"
  "visited_urls s |\<subseteq>| visited_urls (crawl_links lib w cfg links d s)"
proof (induction lib w cfg url d s and lib w cfg links d s rule: crawl_crawl_links.induct)
  case (1 lib w cfg url current_depth s)
  show ?case
  proof (cases "url |\<in>| visited_urls s \<or> current_depth > max_depth cfg
         \<or> int (fcard (visited_urls s)) \<ge> max_pages cfg")
    case True
    then show ?thesis by (simp add: crawl.simps)
  next
    case False
    show ?thesis
    proof (cases "get_page w (length (fetches s)) url")
      case None
      then show ?thesis using False by (simp add: crawl.simps)
    next
      case (Some soup)
      then show ?thesis
        using False "1.IH" [OF False Some] by (auto simp add: crawl.simps)
    qed
  qed
next
  case (2 lib w cfg depth s)
  then show ?case by simp
next
  case (3 lib w cfg link links depth s)
  then show ?case by simp
qed

lemma crawl_visited_bound:
  "int (fcard (visited_urls s)) \<le> max_pages cfg \<Longrightarrow>
     int (fcard (visited_urls (crawl lib w cfg url d s))) \<le> max_pages cfg"
  "int (fcard (visited_urls s)) \<le> max_pages cfg \<Longrightarrow>
     int (fcard (visited_urls (crawl_links lib w cfg links d s))) \<le> max_pages cfg"
proof (induction lib w cfg url d s and lib w cfg links d s rule: crawl_crawl_links.induct)
  case (1 lib w cfg url current_depth s)
  show ?case
  proof (cases "url |\<in>| visited_urls s \<or> current_depth > max_depth cfg
         \<or> int (fcard (visited_urls s)) \<ge> max_pages cfg")
    case True
    then show ?thesis using "1.prems" by (simp add: crawl.simps)
  next
    case False
    show ?thesis
    proof (cases "get_page w (length (fetches s)) url")
      case None
      then show ?thesis using False "1.prems" by (simp add: crawl.simps)
    next
      case (Some soup)
      have "int (fcard (finsert url (visited_urls s))) \<le> max_pages cfg"
        using False by (simp add: fcard_finsert_disjoint)
      then show ?thesis
        using False Some "1.IH" [OF False Some] by (simp add: crawl.simps)
    qed
  qed
next
  case (2 lib w cfg depth s)
  then show ?case by simp
next
  case (3 lib w cfg link links depth s)
  then show ?case by simp
qed

lemma add_link_netloc:
  "\<forall>l \<in> set acc. netloc lib l = netloc lib b \<Longrightarrow>
   \<forall>l \<in> set (add_link lib b True t acc). netloc lib l = netloc lib b"
  by (auto simp: add_link_def Let_def set_set_add split: option.splits)

lemma fold_add_link_netloc:
  "\<forall>l \<in> set acc. netloc lib l = netloc lib b \<Longrightarrow>
   \<forall>l \<in> set (fold (add_link lib b True) ts acc). netloc lib l = netloc lib b"
proof (induction ts arbitrary: acc)
  case Nil
  then show ?case by simp
next
  case (Cons t ts)
  have "\<forall>l \<in> set (fold (add_link lib b True) ts (add_link lib b True t acc)).
          netloc lib l = netloc lib b"
    by (rule Cons.IH [OF add_link_netloc [OF Cons.prems]])
  then show ?case by simp
qed

lemma extract_links_netloc:
  "l \<in> set (extract_links lib soup b True) \<Longrightarrow> netloc lib l = netloc lib b"
  using fold_add_link_netloc [of "[]" lib b "find_all_a_href soup"]
  by (simp add: extract_links_def)

text \<open>
  A property \<open>R\<close> of a URL and a depth that holds of the first call and passes from a
  fetched page to its links holds of every fetch of the trace, and every fetch is made at
  a depth of at most \<^verbatim>\<open>max_depth\<close>.
\<close>

lemma crawl_fetches_invariant:
  assumes step: "\<And>u k t soup l. R u k \<Longrightarrow> k \<le> max_depth cfg \<Longrightarrow> get_page w t u = Some soup \<Longrightarrow>
             l \<in> set (extract_links lib soup u (same_domain cfg)) \<Longrightarrow> R l (k + 1)"
  shows "R url d \<Longrightarrow> \<forall>(u, k, ok) \<in> set (fetches s). R u k \<and> k \<le> max_depth cfg \<Longrightarrow>
         \<forall>(u, k, ok) \<in> set (fetches (crawl lib w cfg url d s)). R u k \<and> k \<le> max_depth cfg"
    and "\<forall>l \<in> set links. R l d \<Longrightarrow> \<forall>(u, k, ok) \<in> set (fetches s). R u k \<and> k \<le> max_depth cfg \<Longrightarrow>
         \<forall>(u, k, ok) \<in> set (fetches (crawl_links lib w cfg links d s)). R u k \<and> k \<le> max_depth cfg"
  using step
proof (induction lib w cfg url d s and lib w cfg links d s rule: crawl_crawl_links.induct)
  case (1 lib w cfg url current_depth s)
  show ?case
  proof (cases "url |\<in>| visited_urls s \<or> current_depth > max_depth cfg
         \<or> int (fcard (visited_urls s)) \<ge> max_pages cfg")
    case True
    then show ?thesis using "1.prems"(2) by (simp add: crawl.simps)
  next
    case False
    show ?thesis
    proof (cases "get_page w (length (fetches s)) url")
      case None
      then show ?thesis using False "1.prems"(1,2) by (simp add: crawl.simps)
    next
      case (Some soup)
      have links: "\<forall>l \<in> set (extract_links lib soup url (same_domain cfg)). R l (current_depth + 1)"
        using "1.prems"(1) "1.prems"(3) [of url current_depth "length (fetches s)" soup] False Some
        by simp
      have log: "\<forall>(u, k, ok) \<in> set (fetches (enqueue_media lib soup url (media_types cfg)
                  (s\<lparr>fetches := fetches s @ [(url, current_depth, True)],
                     visited_urls := finsert url (visited_urls s)\<rparr>))). R u k \<and> k \<le> max_depth cfg"
        using "1.prems"(1,2) False by simp
      have "\<forall>(u, k, ok) \<in> set (fetches (crawl_links lib w cfg
               (extract_links lib soup url (same_domain cfg)) (current_depth + 1)
               (enqueue_media lib soup url (media_types cfg)
                  (s\<lparr>fetches := fetches s @ [(url, current_depth, True)],
                     visited_urls := finsert url (visited_urls s)\<rparr>)))). R u k \<and> k \<le> max_depth cfg"
        by (rule "1.IH" [OF False Some links log "1.prems"(3)])
      then show ?thesis
        using False Some by (simp add: crawl.simps)
    qed
  qed
next
  case (2 lib w cfg depth s)
  then show ?case by simp
next
  case (3 lib w cfg link links depth s)
  have a: "\<forall>(u, k, ok) \<in> set (fetches (crawl lib w cfg link depth s)). R u k \<and> k \<le> max_depth cfg"
    by (rule "3.IH"(1) [OF _ "3.prems"(2,3)]) (use "3.prems"(1) in simp)
  have "\<forall>(u, k, ok) \<in> set (fetches (crawl_links lib w cfg links depth (crawl lib w cfg link depth s))).
          R u k \<and> k \<le> max_depth cfg"
    by (rule "3.IH"(2) [OF _ a "3.prems"(3)]) (use "3.prems"(1) in simp)
  then show ?case by simp
qed

lemma no_refetch_snoc:
  "no_refetch (es @ [(u, d, ok)]) \<longleftrightarrow>
     no_refetch es \<and> (\<forall>(u', d', ok') \<in> set es. ok' \<longrightarrow> u' \<noteq> u)"
  by (induction es rule: no_refetch.induct) auto

lemma log_inv_fail:
  "log_inv s \<Longrightarrow> url |\<notin>| visited_urls s \<Longrightarrow>
   log_inv (s\<lparr>fetches := fetches s @ [(url, d, False)]\<rparr>)"
  by (auto simp: log_inv_def no_refetch_snoc)

lemma log_inv_success:
  "log_inv s \<Longrightarrow> url |\<notin>| visited_urls s \<Longrightarrow>
   log_inv (enqueue_media lib soup url ms
     (s\<lparr>fetches := fetches s @ [(url, d, True)], visited_urls := finsert url (visited_urls s)\<rparr>))"
  by (auto simp: log_inv_def no_refetch_snoc)

lemma crawl_log_inv:
  "log_inv s \<Longrightarrow> log_inv (crawl lib w cfg url d s)"
  "log_inv s \<Longrightarrow> log_inv (crawl_links lib w cfg links d s)"
proof (induction lib w cfg url d s and lib w cfg links d s rule: crawl_crawl_links.induct)
  case (1 lib w cfg url current_depth s)
  show ?case
  proof (cases "url |\<in>| visited_urls s \<or> current_depth > max_depth cfg
         \<or> int (fcard (visited_urls s)) \<ge> max_pages cfg")
    case True
    then show ?thesis using "1.prems" by (simp add: crawl.simps)
  next
    case False
    show ?thesis
    proof (cases "get_page w (length (fetches s)) url")
      case None
      then show ?thesis using False log_inv_fail [OF "1.prems"] by (simp add: crawl.simps)
    next
      case (Some soup)
      have "log_inv (enqueue_media lib soup url (media_types cfg)
                  (s\<lparr>fetches := fetches s @ [(url, current_depth, True)],
                     visited_urls := finsert url (visited_urls s)\<rparr>))"
        using False by (intro log_inv_success "1.prems") simp
      from "1.IH" [OF False Some this] show ?thesis
        using False Some by (simp add: crawl.simps)
    qed
  qed
next
  case (2 lib w cfg depth s)
  then show ?case by simp
next
  case (3 lib w cfg link links depth s)
  then show ?case by simp
qed

lemma crawl_fetches_prefix:
  "prefix (fetches s) (fetches (crawl lib w cfg url d s))"
  "prefix (fetches s) (fetches (crawl_links lib w cfg links d s))"
proof (induction lib w cfg url d s and lib w cfg links d s rule: crawl_crawl_links.induct)
  case (1 lib w cfg url current_depth s)
  show ?case
  proof (cases "url |\<in>| visited_urls s \<or> current_depth > max_depth cfg
         \<or> int (fcard (visited_urls s)) \<ge> max_pages cfg")
    case True
    then show ?thesis by (simp add: crawl.simps)
  next
    case False
    show ?thesis
    proof (cases "get_page w (length (fetches s)) url")
      case None
      then show ?thesis using False by (simp add: crawl.simps)
    next
      case (Some soup)
      from "1.IH" [OF False Some] show ?thesis
        using False Some by (auto simp add: crawl.simps dest: append_prefixD)
    qed
  qed
next
  case (2 lib w cfg depth s)
  then show ?case by simp
next
  case (3 lib w cfg link links depth s)
  then show ?case by (auto intro: prefix_order.trans)
qed

lemma crawl_issues_fetch:
  assumes "url |\<notin>| visited_urls s" "d \<le> max_depth cfg" "int (fcard (visited_urls s)) < max_pages cfg"
  shows "prefix (fetches s @ [(url, d, get_page w (length (fetches s)) url \<noteq> None)])
           (fetches (crawl lib w cfg url d s))"
proof (cases "get_page w (length (fetches s)) url")
  case None
  then show ?thesis using assms by (simp add: crawl.simps)
next
  case (Some soup)
  have "prefix (fetches (enqueue_media lib soup url (media_types cfg)
                  (s\<lparr>fetches := fetches s @ [(url, d, True)],
                     visited_urls := finsert url (visited_urls s)\<rparr>)))
          (fetches (crawl_links lib w cfg (extract_links lib soup url (same_domain cfg)) (d + 1)
             (enqueue_media lib soup url (media_types cfg)
                  (s\<lparr>fetches := fetches s @ [(url, d, True)],
                     visited_urls := finsert url (visited_urls s)\<rparr>))))"
    by (rule crawl_fetches_prefix)
  then show ?thesis using assms Some by (simp add: crawl.simps)
qed

lemmas run_simps = init_crawl_def web_def web_pages_def web_swapped_def web_pages_swapped_def
  cfg_images_def a_tag_def img_tag_def crawl.simps
  extract_links_def find_all_a_href_def add_link_def tag_get_def set_add_def simple_lib_def
  simple_urljoin_def simple_netloc_def enqueue_media_def extract_media_links_def find_all_def
  add_attr_def fcard_finsert_if fcard_fempty

lemma run_web:
  "crawl simple_lib web cfg_images ''http://h/a'' 0 init_crawl =
     \<lparr> visited_urls = {|''http://h/c'', ''http://h/a''|},
       download_queue = [(''http://h/1.png'', ''images'', ''http://h/a''),
                         (''http://h/2.png'', ''images'', ''http://h/a'')],
       fetches = [(''http://h/a'', 0, True), (''http://h/b'', 1, False),
                  (''http://h/c'', 1, True), (''http://h/b'', 2, False)] \<rparr>"
  by (simp add: run_simps)

lemma run_web_swapped:
  "fetches (crawl simple_lib web_swapped cfg_images ''http://h/a'' 0 init_crawl) =
      [(''http://h/a'', 0, True), (''http://h/c'', 1, True), (''http://h/b'', 2, False),
                  (''http://h/b'', 1, False)]"
  by (simp add: run_simps)

text \<open>
  Claim C2 as stated: the traversal never issues two fetches for the same URL, and a URL
  whose fetch failed is not retried when it is discovered again. It is retried: in the small
  web the failing page \<^verbatim>\<open>b\<close> is fetched from \<^verbatim>\<open>a\<close> and again from \<^verbatim>\<open>c\<close>, in whichever
  order the links of \<^verbatim>\<open>a\<close> are followed.
\<close>

theorem crawl_refetches_failed_url:
  "\<not> distinct (map fst (fetches (crawl simple_lib web cfg_images ''http://h/a'' 0 init_crawl)))
   \<and> \<not> distinct (map fst
         (fetches (crawl simple_lib web_swapped cfg_images ''http://h/a'' 0 init_crawl)))"
  by (simp add: run_web run_web_swapped)

text \<open>
  Claim C2 as amended: in every crawl no fetch is issued for a URL that an earlier fetch
  returned with success, and the visited set holds exactly the URLs fetched with success
  (each once, being a set); a call for a URL that is not in the visited set, within the
  depth and page bounds, issues a fetch, so a URL whose fetch failed is fetched again when
  it is discovered again.
\<close>

theorem crawl_no_refetch_after_success:
  "no_refetch (fetches (crawl lib w cfg seed 0 init_crawl))
   \<and> fset (visited_urls (crawl lib w cfg seed 0 init_crawl)) =
       {u. \<exists>k. (u, k, True) \<in> set (fetches (crawl lib w cfg seed 0 init_crawl))}
   \<and> (url |\<notin>| visited_urls s \<and> d \<le> max_depth cfg
        \<and> int (fcard (visited_urls s)) < max_pages cfg \<longrightarrow>
      prefix (fetches s @ [(url, d, get_page w (length (fetches s)) url \<noteq> None)])
        (fetches (crawl lib w cfg url d s)))"
proof -
  have "log_inv init_crawl"
    by (simp add: log_inv_def init_crawl_def)
  then have "log_inv (crawl lib w cfg seed 0 init_crawl)"
    by (rule crawl_log_inv(1))
  then show ?thesis
    using crawl_issues_fetch [of url s d cfg w lib] by (simp add: log_inv_def)
qed

theorem crawl_no_refetch_after_success_witness:
  "''http://h/b'' |\<notin>| visited_urls init_crawl
   \<and> (0::int) \<le> max_depth cfg_images
   \<and> int (fcard (visited_urls init_crawl)) < max_pages cfg_images
   \<and> prefix [(''http://h/b'', 0, False)]
       (fetches (crawl simple_lib web cfg_images ''http://h/b'' 0 init_crawl))
   \<and> no_refetch (fetches (crawl simple_lib web cfg_images ''http://h/a'' 0 init_crawl))"
proof -
  have h: "''http://h/b'' |\<notin>| visited_urls init_crawl" "(0::int) \<le> max_depth cfg_images"
    "int (fcard (visited_urls init_crawl)) < max_pages cfg_images"
    by (simp_all add: init_crawl_def cfg_images_def fcard_fempty)
  have g: "get_page web (length (fetches init_crawl)) ''http://h/b'' = None"
    by (simp add: web_def web_pages_def)
  from crawl_no_refetch_after_success
    [of simple_lib web cfg_images "''http://h/a''" "''http://h/b''" init_crawl 0] h g
  show ?thesis by (simp add: init_crawl_def)
qed

text \<open>
  Claim C3: whenever the visited set holds at most \<^verbatim>\<open>max_pages\<close> URLs before a call of
  \<^verbatim>\<open>crawl\<close>, it does so after the call; the set only grows during the call, so the bound
  holds at every point in between; and a call made when the ceiling is reached returns the
  state as it found it, whatever the branch of the traversal.
\<close>

theorem crawl_page_count_bound:
  assumes "int (fcard (visited_urls s)) \<le> max_pages cfg"
  shows "int (fcard (visited_urls (crawl lib w cfg url d s))) \<le> max_pages cfg
       \<and> visited_urls s |\<subseteq>| visited_urls (crawl lib w cfg url d s)
       \<and> (max_pages cfg \<le> int (fcard (visited_urls s)) \<longrightarrow> crawl lib w cfg url d s = s)"
  using assms crawl_visited_bound(1) [of s cfg lib w url d] crawl_visited_mono(1) [of s lib w cfg url d]
  by (simp add: crawl.simps)

theorem crawl_page_count_bound_witness:
  "int (fcard (visited_urls init_crawl)) \<le> max_pages cfg_one_page
   \<and> int (fcard (visited_urls (crawl simple_lib web cfg_one_page ''http://h/a'' 0 init_crawl))) \<le> 1
   \<and> visited_urls (crawl simple_lib web cfg_one_page ''http://h/a'' 0 init_crawl) = {|''http://h/a''|}"
proof -
  have h: "int (fcard (visited_urls init_crawl)) \<le> max_pages cfg_one_page"
    by (simp add: init_crawl_def cfg_one_page_def cfg_images_def fcard_fempty)
  have v: "visited_urls (crawl simple_lib web cfg_one_page ''http://h/a'' 0 init_crawl) = {|''http://h/a''|}"
    by (simp add: cfg_one_page_def run_simps)
  from crawl_page_count_bound [OF h, of simple_lib web "''http://h/a''" 0] h v show ?thesis
    by (simp add: cfg_one_page_def cfg_images_def)
qed

text \<open>
  Claim C4: with \<^verbatim>\<open>same_domain\<close> switched on, every URL for which the traversal issues a
  fetch has the network location of the seed URL, although \<^verbatim>\<open>extract_links\<close> compares
  each link with the page it stands on.
\<close>

theorem crawl_same_domain:
  assumes "same_domain cfg"
  shows "\<forall>(u, k, ok) \<in> set (fetches (crawl lib w cfg seed 0 init_crawl)).
           netloc lib u = netloc lib seed"
proof -
  have "\<forall>(u, k, ok) \<in> set (fetches (crawl lib w cfg seed 0 init_crawl)).
          netloc lib u = netloc lib seed \<and> k \<le> max_depth cfg"
  proof (rule crawl_fetches_invariant(1) [where R = "\<lambda>u k. netloc lib u = netloc lib seed"])
    fix u :: string and k :: int and t soup l
    assume "netloc lib u = netloc lib seed"
      and "l \<in> set (extract_links lib soup u (same_domain cfg))"
    then show "netloc lib l = netloc lib seed"
      using assms extract_links_netloc [of l lib soup u] by simp
  next
    show "netloc lib seed = netloc lib seed" ..
  next
    show "\<forall>(u, k, ok) \<in> set (fetches init_crawl). netloc lib u = netloc lib seed \<and> k \<le> max_depth cfg"
      by (simp add: init_crawl_def)
  qed
  then show ?thesis by auto
qed

theorem crawl_same_domain_witness:
  "same_domain cfg_images
   \<and> (''http://h/c'', 1, True) \<in> set (fetches (crawl simple_lib web cfg_images ''http://h/a'' 0 init_crawl))
   \<and> netloc simple_lib ''http://h/c'' = netloc simple_lib ''http://h/a''
   \<and> ''http://x/z'' \<notin> fst ` set (fetches (crawl simple_lib web cfg_images ''http://h/a'' 0 init_crawl))"
proof -
  have h: "same_domain cfg_images" by (simp add: cfg_images_def)
  have m: "(''http://h/c'', 1, True) \<in> set (fetches (crawl simple_lib web cfg_images ''http://h/a'' 0 init_crawl))"
    by (simp add: run_web)
  have n: "''http://x/z'' \<notin> fst ` set (fetches (crawl simple_lib web cfg_images ''http://h/a'' 0 init_crawl))"
    by (simp add: run_web)
  from crawl_same_domain [OF h, of simple_lib web "''http://h/a''"] m
  have "netloc simple_lib ''http://h/c'' = netloc simple_lib ''http://h/a''" by blast
  with h m n show ?thesis by blast
qed

text \<open>
  Claim C6: every fetch of a crawl is made at a depth between 0 and \<^verbatim>\<open>max_depth\<close>, and
  the fetched URL is reached from the seed by a link path of exactly that length, so a page
  whose every link path is longer than \<^verbatim>\<open>max_depth\<close> is never fetched; a call at a
  depth above \<^verbatim>\<open>max_depth\<close> returns the state as it found it.
\<close>

theorem crawl_depth_bound:
  "(\<forall>(u, k, ok) \<in> set (fetches (crawl lib w cfg seed 0 init_crawl)).
      0 \<le> k \<and> k \<le> max_depth cfg \<and> linkpath lib w (same_domain cfg) seed (nat k) u)
   \<and> (max_depth cfg < d \<longrightarrow> crawl lib w cfg url d s = s)"
proof
  have "\<forall>(u, k, ok) \<in> set (fetches (crawl lib w cfg seed 0 init_crawl)).
          (0 \<le> k \<and> linkpath lib w (same_domain cfg) seed (nat k) u) \<and> k \<le> max_depth cfg"
  proof (rule crawl_fetches_invariant(1)
      [where R = "\<lambda>u k. 0 \<le> k \<and> linkpath lib w (same_domain cfg) seed (nat k) u"])
    fix u :: string and k :: int and t soup l
    assume r: "0 \<le> k \<and> linkpath lib w (same_domain cfg) seed (nat k) u"
      and g: "get_page w t u = Some soup"
      and l: "l \<in> set (extract_links lib soup u (same_domain cfg))"
    have "linkpath lib w (same_domain cfg) seed (Suc (nat k)) l"
      using r g l by (blast intro: linkpath_step)
    moreover have "nat (k + 1) = Suc (nat k)" using r by (auto simp: nat_add_distrib)
    ultimately show "0 \<le> k + 1 \<and> linkpath lib w (same_domain cfg) seed (nat (k + 1)) l"
      using r by simp
  next
    show "0 \<le> (0::int) \<and> linkpath lib w (same_domain cfg) seed (nat 0) seed"
      by (simp add: linkpath_seed)
  next
    show "\<forall>(u, k, ok) \<in> set (fetches init_crawl).
            (0 \<le> k \<and> linkpath lib w (same_domain cfg) seed (nat k) u) \<and> k \<le> max_depth cfg"
      by (simp add: init_crawl_def)
  qed
  then show "\<forall>(u, k, ok) \<in> set (fetches (crawl lib w cfg seed 0 init_crawl)).
      0 \<le> k \<and> k \<le> max_depth cfg \<and> linkpath lib w (same_domain cfg) seed (nat k) u"
    by auto
next
  show "max_depth cfg < d \<longrightarrow> crawl lib w cfg url d s = s"
    by (simp add: crawl.simps)
qed

theorem crawl_depth_bound_witness:
  "(''http://h/b'', 2, False) \<in> set (fetches (crawl simple_lib web cfg_images ''http://h/a'' 0 init_crawl))
   \<and> (2::int) \<le> max_depth cfg_images
   \<and> linkpath simple_lib web (same_domain cfg_images) ''http://h/a'' (nat 2) ''http://h/b''
   \<and> max_depth cfg_images < 3
   \<and> crawl simple_lib web cfg_images ''http://h/b'' 3 init_crawl = init_crawl"
proof -
  have m: "(''http://h/b'', 2, False) \<in> set (fetches (crawl simple_lib web cfg_images ''http://h/a'' 0 init_crawl))"
    by (simp add: run_web)
  have d: "max_depth cfg_images < 3" by (simp add: cfg_images_def)
  note t = crawl_depth_bound [of simple_lib web cfg_images "''http://h/a''" 3 "''http://h/b''" init_crawl]
  from t m have "(2::int) \<le> max_depth cfg_images
      \<and> linkpath simple_lib web (same_domain cfg_images) ''http://h/a'' (nat 2) ''http://h/b''"
    by blast
  moreover from t d have "crawl simple_lib web cfg_images ''http://h/b'' 3 init_crawl = init_crawl"
    by blast
  ultimately show ?thesis using m d by blast
qed

section \<open>Properties of the workers\<close>









lemma process_item_queue:
  "queue (snd (process_item lib w cfg it mc st)) = queue st
   \<and> workers (snd (process_item lib w cfg it mc st)) = workers st"
  by (auto simp: process_item_def Let_def split: if_splits option.splits prod.splits)

lemma worker_step_pool:
  "length (workers (worker_step lib w cfg i st)) = length (workers st)
   \<and> length (queue (worker_step lib w cfg i st)) \<le> length (queue st)"
proof (cases "i \<ge> length (workers st)")
  case True
  then show ?thesis by (simp add: worker_step_def)
next
  case False
  show ?thesis
  proof (cases "pc (workers st ! i)")
    case (Holding it)
    obtain mc' st' where p: "process_item lib w cfg it (media_count (workers st ! i)) st = (mc', st')"
      by (cases "process_item lib w cfg it (media_count (workers st ! i)) st")
    from process_item_queue [of lib w cfg it "media_count (workers st ! i)" st] p
    show ?thesis using False Holding by (simp add: worker_step_def Let_def)
  qed (use False in \<open>auto simp: worker_step_def Let_def split: list.splits\<close>)
qed

lemma run_schedule_pool:
  "length (workers (run_schedule lib w cfg sched st)) = length (workers st)
   \<and> length (queue (run_schedule lib w cfg sched st)) \<le> length (queue st)"
  unfolding run_schedule_def
proof (induction sched arbitrary: st)
  case Nil
  then show ?case by simp
next
  case (Cons i sched)
  from Cons.IH [of "worker_step lib w cfg i st"] worker_step_pool [of lib w cfg i st]
  show ?case by simp
qed

lemma run_schedule_no_workers:
  "workers st = [] \<Longrightarrow> run_schedule lib w cfg sched st = st"
  unfolding run_schedule_def
  by (induction sched) (simp_all add: worker_step_def)


lemma pool0:
  "start_pool (crawl simple_lib web cfg_images ''http://h/a'' 0 init_crawl) [] =
    \<lparr> queue = [(''http://h/1.png'', ''images'', ''http://h/a''),
                         (''http://h/2.png'', ''images'', ''http://h/a'')],
      downloaded_media = [], files = [], media_requests = 0, rand_calls = 0,
      workers = [new_worker, new_worker] \<rparr>"
  by (simp add: run_web start_pool_def MAX_THREADS_def)

lemma run_two_workers:
  "downloaded_media (run_schedule simple_lib web cfg_images two_workers
      (start_pool (crawl simple_lib web cfg_images ''http://h/a'' 0 init_crawl) [])) =
     [\<lparr> rec_url = ''http://h/1.png'', rec_type = ''images'', rec_size_kb = 2,
          rec_filename = ''1.png'', rec_source_page = ''http://h/a'' \<rparr>,
      \<lparr> rec_url = ''http://h/2.png'', rec_type = ''images'', rec_size_kb = 2,
          rec_filename = ''2.png'', rec_source_page = ''http://h/a'' \<rparr>]"
  unfolding pool0 by code_simp

lemma run_two_workers_finished:
  "list_all (\<lambda>wk. pc wk = Finished) (workers (run_schedule simple_lib web cfg_images two_workers
      (start_pool (crawl simple_lib web cfg_images ''http://h/a'' 0 init_crawl) [])))"
  unfolding pool0 by code_simp

text \<open>
  Claim C1, at a run that breaks it: the limit for images is 1, the seed page shows two
  images, both downloads succeed, and with two threads that each take one item the ledger
  ends with two image records. \<^verbatim>\<open>media_count\<close> is a local variable of
  \<^verbatim>\<open>download_worker\<close>, so each thread counts its own downloads only.
\<close>

theorem quota_overshoot_two_workers:
  "max_per_type cfg_images ''images'' = Some 1
   \<and> map_option (\<lambda>st. map rec_type (downloaded_media st))
        (main simple_lib web cfg_images ''http://h/a'' [] two_workers) = Some [''images'', ''images'']"
  using run_two_workers run_two_workers_finished
  by (simp add: main_def Let_def save_results_def cfg_images_def)





section \<open>Properties of the manifest and the main program\<close>

lemma filter_update_excluded:
  "\<not> P k \<Longrightarrow> filter (\<lambda>(p, c). P p) (AList.update k v al) = filter (\<lambda>(p, c). P p) al"
  by (induction al) auto

text \<open>
  Claim C8: the pool has \<open>min 8 n\<close> workers, \<open>n\<close> being the length of the queue that the
  traversal returned; no step of a worker adds a worker or an item, so that is the number
  of workers when \<^verbatim>\<open>main\<close> has joined them.
\<close>

theorem pool_size:
  "length (workers (start_pool cs fs)) = min 8 (length (download_queue cs))
   \<and> queue (start_pool cs fs) = download_queue cs
   \<and> length (workers (run_schedule lib w cfg sched st)) = length (workers st)
   \<and> length (queue (run_schedule lib w cfg sched st)) \<le> length (queue st)
   \<and> (main lib w cfg url fs sched = Some st' \<longrightarrow>
        length (workers st') = min 8 (length (download_queue (crawl lib w cfg url 0 init_crawl))))"
proof -
  have a: "length (workers (start_pool cs fs)) = min 8 (length (download_queue cs))" for cs
    by (simp add: start_pool_def MAX_THREADS_def)
  have "main lib w cfg url fs sched = Some st' \<longrightarrow>
        length (workers st') = min 8 (length (download_queue (crawl lib w cfg url 0 init_crawl)))"
    using run_schedule_pool [of lib w cfg sched "start_pool (crawl lib w cfg url 0 init_crawl) fs"]
      a [of "crawl lib w cfg url 0 init_crawl"]
    by (auto simp: main_def Let_def save_results_def split: if_splits)
  then show ?thesis
    using a [of cs] run_schedule_pool [of lib w cfg sched st] by (simp add: start_pool_def)
qed

theorem pool_size_witness:
  "(\<exists>st. main simple_lib web cfg_images ''http://h/a'' [] two_workers = Some st
      \<and> length (workers st) = 2)
   \<and> length (download_queue (crawl simple_lib web cfg_images ''http://h/a'' 0 init_crawl)) = 2"
proof -
  have q: "length (download_queue (crawl simple_lib web cfg_images ''http://h/a'' 0 init_crawl)) = 2"
    by (simp add: run_web)
  obtain st where m: "main simple_lib web cfg_images ''http://h/a'' [] two_workers = Some st"
    using run_two_workers_finished by (simp add: main_def Let_def)
  from pool_size [where lib = simple_lib and w = web and cfg = cfg_images and sched = two_workers
      and url = "''http://h/a''" and fs = "[]" and st' = st] m q
  have "length (workers st) = 2" by simp
  with m q show ?thesis by blast
qed

text \<open>
  Claim C10: when the traversal has queued nothing, \<^verbatim>\<open>main\<close> starts no worker and still
  writes the manifest: \<^verbatim>\<open>results.json\<close> holds the empty list, \<^verbatim>\<open>results.csv\<close> the header
  row alone, and \<^verbatim>\<open>media.zip\<close> the files of the output directory, the two manifest files
  among them, except those named \<^verbatim>\<open>media.zip\<close>.
\<close>

theorem empty_queue_manifest:
  assumes "download_queue (crawl lib w cfg url 0 init_crawl) = []"
  shows "\<exists>st. main lib w cfg url fs sched = Some st \<and> workers st = [] \<and> downloaded_media st = []
     \<and> map_of (files st) [''results.json''] = Some (Json [])
     \<and> map_of (files st) [''results.csv''] =
         Some (Csv [''url'', ''type'', ''size_kb'', ''filename'', ''source_page''] [])
     \<and> (\<exists>entries. map_of (files st) [''media.zip''] = Some (Zip entries)
          \<and> set entries =
              {(p, c). (p, c) \<in> set (AList.update [''results.csv''] (Csv csv_fieldnames [])
                                      (AList.update [''results.json''] (Json []) fs))
                       \<and> file_of_path p \<noteq> ''media.zip''})"
proof -
  let ?cs = "crawl lib w cfg url 0 init_crawl"
  let ?f2 = "AList.update [''results.csv''] (Csv csv_fieldnames [])
               (AList.update [''results.json''] (Json []) fs)"
  have p: "start_pool ?cs fs = \<lparr> queue = [], downloaded_media = [], files = fs,
       media_requests = 0, rand_calls = 0, workers = [] \<rparr>"
    using assms by (simp add: start_pool_def)
  have r: "run_schedule lib w cfg sched (start_pool ?cs fs) = start_pool ?cs fs"
    by (rule run_schedule_no_workers) (simp add: p)
  have m: "main lib w cfg url fs sched = Some (save_results (start_pool ?cs fs))"
    by (simp add: main_def Let_def r) (simp add: p)
  have e: "filter (\<lambda>(p, c). file_of_path p \<noteq> ''media.zip'') (AList.update [''media.zip''] (Zip []) ?f2)
         = filter (\<lambda>(p, c). file_of_path p \<noteq> ''media.zip'') ?f2"
    by (rule filter_update_excluded) (simp add: file_of_path_def)
  have z: "map_of (files (save_results (start_pool ?cs fs))) [''media.zip''] =
             Some (Zip (filter (\<lambda>(p, c). file_of_path p \<noteq> ''media.zip'') ?f2))"
    unfolding p save_results_def Let_def e [symmetric] by (simp add: update_conv')
  have s: "set (filter (\<lambda>(p, c). file_of_path p \<noteq> ''media.zip'') ?f2) =
             {(p, c). (p, c) \<in> set ?f2 \<and> file_of_path p \<noteq> ''media.zip''}"
    by auto
  have j: "map_of (files (save_results (start_pool ?cs fs))) [''results.json''] = Some (Json [])"
    unfolding p save_results_def Let_def by (simp add: update_conv')
  have c: "map_of (files (save_results (start_pool ?cs fs))) [''results.csv''] =
         Some (Csv [''url'', ''type'', ''size_kb'', ''filename'', ''source_page''] [])"
    unfolding p save_results_def Let_def by (simp add: update_conv' csv_fieldnames_def)
  have w: "workers (save_results (start_pool ?cs fs)) = []"
    "downloaded_media (save_results (start_pool ?cs fs)) = []"
    unfolding p save_results_def Let_def by simp_all
  from m w j c z s show ?thesis by blast
qed

theorem empty_queue_manifest_witness:
  "download_queue (crawl simple_lib web_no_media cfg_images ''http://h/a'' 0 init_crawl) = []
   \<and> (\<exists>st. main simple_lib web_no_media cfg_images ''http://h/a'' old_tree [] = Some st
        \<and> workers st = [] \<and> downloaded_media st = []
        \<and> map_of (files st) [''results.json''] = Some (Json [])
        \<and> map_of (files st) [''results.csv''] =
            Some (Csv [''url'', ''type'', ''size_kb'', ''filename'', ''source_page''] [])
        \<and> (\<exists>entries. map_of (files st) [''media.zip''] = Some (Zip entries)
             \<and> set entries =
              {(p, c). (p, c) \<in> set (AList.update [''results.csv''] (Csv csv_fieldnames [])
                                      (AList.update [''results.json''] (Json []) old_tree))
                       \<and> file_of_path p \<noteq> ''media.zip''}))"
proof -
  have h: "download_queue (crawl simple_lib web_no_media cfg_images ''http://h/a'' 0 init_crawl) = []"
    by (simp add: web_no_media_def run_simps)
  from empty_queue_manifest [OF h, of old_tree "[]"] h show ?thesis by blast
qed

text \<open>The output directory of that run, file by file.\<close>

lemma run_no_media:
  "map_option files (main simple_lib web_no_media cfg_images ''http://h/a'' old_tree []) =
     Some [([''images'', ''old.png''], Bytes ''x''),
           ([''media.zip''], Zip [([''images'', ''old.png''], Bytes ''x''),
                                  ([''results.json''], Json []),
                                  ([''results.csv''], Csv csv_fieldnames [])]),
           ([''images'', ''media.zip''], Bytes ''y''),
           ([''results.json''], Json []),
           ([''results.csv''], Csv csv_fieldnames [])]"
  by code_simp

end
